theory Spec2Isabelle
  imports Complex_Main "HOL-Library.Word" "HOL-Library.AList"
begin

section \<open>Strings\<close>

text \<open>
  A JavaScript string is a sequence of UTF-16 code units; \<open>text[i]\<close>, \<open>length\<close>
  and \<open>===\<close> all work on code units. A string is therefore a list of 16-bit words.
  A one-character string such as \<open>text[i]\<close> is the singleton list \<open>[ch]\<close>, and the
  empty string is \<open>[]\<close>.
\<close>

type_synonym jchar = "16 word"
type_synonym jstring = "jchar list"

definition ascii :: "string \<Rightarrow> jstring" where
  "ascii s = map (\<lambda>c. of_nat (of_char c)) s"

abbreviation LF :: jchar where "LF \<equiv> 0x0A"
abbreviation CR :: jchar where "CR \<equiv> 0x0D"
abbreviation TAB :: jchar where "TAB \<equiv> 0x09"
abbreviation DQUOTE :: jchar where "DQUOTE \<equiv> 0x22"
abbreviation COMMA :: jchar where "COMMA \<equiv> 0x2C"
abbreviation SEMICOLON :: jchar where "SEMICOLON \<equiv> 0x3B"
abbreviation PIPE :: jchar where "PIPE \<equiv> 0x7C"
abbreviation BOM :: jchar where "BOM \<equiv> 0xFEFF"

text \<open>
  \<open>String.prototype.trim\<close> removes the code units of WhiteSpace and LineTerminator
  (ECMA-262) from both ends.
\<close>

definition isWhiteSpace :: "jchar \<Rightarrow> bool" where
  "isWhiteSpace c \<longleftrightarrow>
     c = 0x09 \<or> c = 0x0A \<or> c = 0x0B \<or> c = 0x0C \<or> c = 0x0D \<or> c = 0x20 \<or> c = 0xA0 \<or>
     c = 0x1680 \<or> (0x2000 \<le> c \<and> c \<le> 0x200A) \<or> c = 0x2028 \<or> c = 0x2029 \<or>
     c = 0x202F \<or> c = 0x205F \<or> c = 0x3000 \<or> c = 0xFEFF"

definition trim :: "jstring \<Rightarrow> jstring" where
  "trim s = rev (dropWhile isWhiteSpace (rev (dropWhile isWhiteSpace s)))"

section \<open>Row tokenizer (\<open>parseRows\<close>)\<close>

text \<open>
  The mutable locals of \<open>parseRows\<close>: \<open>field\<close>, \<open>row\<close>, \<open>inQuotes\<close> and the
  output \<open>lines\<close>.
\<close>

record tokenizer =
  field :: jstring
  row :: "jstring list"
  inQuotes :: bool
  lines :: "jstring list list"

definition pushField :: "tokenizer \<Rightarrow> tokenizer" where
  "pushField st = st\<lparr>row := row st @ [field st], field := []\<rparr>"

definition pushRow :: "bool \<Rightarrow> tokenizer \<Rightarrow> tokenizer" where
  "pushRow skipEmpty st =
     st\<lparr>lines := (if \<not> (skipEmpty \<and> length (row st) = 1 \<and> trim (row st ! 0) = [])
                   then lines st @ [row st] else lines st),
        row := []\<rparr>"

text \<open>
  The condition of the start-of-line comment branch. In \<open>comment && ch === comment\<close>
  the configured prefix is truthy (present and not the empty string) and equal, as a
  whole string, to the one-character string \<open>ch\<close>.
\<close>

definition commentStart :: "jstring option \<Rightarrow> tokenizer \<Rightarrow> jchar \<Rightarrow> bool" where
  "commentStart comment st ch \<longleftrightarrow>
     \<not> inQuotes st \<and> field st = [] \<and> row st = [] \<and>
     (case comment of None \<Rightarrow> False | Some c \<Rightarrow> c \<noteq> [] \<and> [ch] = c)"

text \<open>
  The \<open>for\<close> loop over \<open>i\<close>. The loop only reads \<open>text[i]\<close>, \<open>text[i + 1]\<close> and
  \<open>len\<close>, so the model recurses on the suffix of the text that starts at \<open>i\<close>:
  \<open>ch\<close> is its head and \<open>next\<close> the one-character string after it (\<open>""\<close> at the end).
  \<open>i++\<close> inside the body drops one more character. The comment branch advances to
  the next line feed (or the end) and the loop's own \<open>i++\<close> then steps over it.
\<close>

function scanRows ::
  "jstring \<Rightarrow> jstring option \<Rightarrow> bool \<Rightarrow> tokenizer \<Rightarrow> jstring \<Rightarrow> tokenizer" where
  "scanRows d comment skipEmpty st [] = st"
| "scanRows d comment skipEmpty st (ch # rest) =
     (if commentStart comment st ch
      then scanRows d comment skipEmpty st (drop 1 (dropWhile (\<lambda>c. c \<noteq> LF) (ch # rest)))
      else if ch = DQUOTE then
        (if inQuotes st \<and> take 1 rest = [DQUOTE]
         then scanRows d comment skipEmpty (st\<lparr>field := field st @ [DQUOTE]\<rparr>) (drop 1 rest)
         else scanRows d comment skipEmpty (st\<lparr>inQuotes := \<not> inQuotes st\<rparr>) rest)
      else if \<not> inQuotes st \<and> [ch] = d
      then scanRows d comment skipEmpty (pushField st) rest
      else if \<not> inQuotes st \<and> (ch = LF \<or> ch = CR)
      then scanRows d comment skipEmpty (pushRow skipEmpty (pushField st))
             (if ch = CR \<and> take 1 rest = [LF] then drop 1 rest else rest)
      else scanRows d comment skipEmpty (st\<lparr>field := field st @ [ch]\<rparr>) rest)"
  by pat_completeness auto
termination
proof (relation "measure (\<lambda>(d, comment, skipEmpty, st, text). length text)")
  fix ch :: jchar and rest :: jstring
  have "length (dropWhile (\<lambda>c. c \<noteq> LF) (ch # rest)) \<le> length (ch # rest)"
    by (rule length_dropWhile_le)
  then show "\<And>d comment skipEmpty st.
      ((d, comment, skipEmpty, st, drop 1 (dropWhile (\<lambda>c. c \<noteq> LF) (ch # rest))),
       (d, comment, skipEmpty, st, ch # rest))
      \<in> measure (\<lambda>(d, comment, skipEmpty, st, text). length text)"
    by simp
qed auto

definition initial :: tokenizer where
  "initial = \<lparr>field = [], row = [], inQuotes = False, lines = []\<rparr>"

text \<open>The two statements after the loop: the last field is always closed, the last row
  is closed only when it has more than one field or a non-empty one.\<close>

definition finish :: "bool \<Rightarrow> tokenizer \<Rightarrow> jstring list list" where
  "finish skipEmpty st =
     (let st' = pushField st
      in if length (row st') > 1 \<or> row st' ! 0 \<noteq> [] then lines (pushRow skipEmpty st')
         else lines st')"

definition parseRows :: "jstring \<Rightarrow> jstring \<Rightarrow> jstring option \<Rightarrow> bool \<Rightarrow> jstring list list" where
  "parseRows text d comment skipEmpty = finish skipEmpty (scanRows d comment skipEmpty initial text)"

section \<open>BOM stripper and delimiter detector\<close>

definition stripBOM :: "jstring \<Rightarrow> jstring" where
  "stripBOM s = (case s of [] \<Rightarrow> s | c # cs \<Rightarrow> if c = BOM then cs else s)"

text \<open>
  \<open>s.split(/\r?\n/)\<close>: the pattern matches a line feed, together with one carriage
  return directly before it; it never matches the empty string, so the pieces are the
  stretches between matches, the last one included. A carriage return that is not
  followed by a line feed stays in its piece.
\<close>

fun splitLines :: "jstring \<Rightarrow> jstring list" where
  "splitLines [] = [[]]"
| "splitLines (c # cs) =
     (if c = LF then [] # splitLines cs
      else if c = CR \<and> take 1 cs = [LF] then [] # splitLines (drop 1 cs)
      else (case splitLines cs of [] \<Rightarrow> [[c]] | l # ls \<Rightarrow> (c # l) # ls))"

text \<open>\<open>line.split(d)\<close> for a separator \<open>d\<close> of one code unit.\<close>

fun splitChar :: "jchar \<Rightarrow> jstring \<Rightarrow> jstring list" where
  "splitChar d [] = [[]]"
| "splitChar d (c # cs) =
     (if c = d then [] # splitChar d cs
      else (case splitChar d cs of [] \<Rightarrow> [[c]] | l # ls \<Rightarrow> (c # l) # ls))"

text \<open>\<open>s.split(/\r?\n/, 5).filter(Boolean)\<close>: the first five pieces, the empty ones
  removed afterwards.\<close>

definition sample :: "jstring \<Rightarrow> jstring list" where
  "sample s = filter (\<lambda>line. line \<noteq> []) (take 5 (splitLines s))"

text \<open>The four candidates are one-character strings; they are kept as code units and
  the detector returns the one-character string of the best.\<close>

definition candidates :: "jchar list" where
  "candidates = [COMMA, SEMICOLON, TAB, PIPE]"

definition columnCounts :: "jstring list \<Rightarrow> jchar \<Rightarrow> nat list" where
  "columnCounts smp d = map (\<lambda>line. length (splitChar d line)) smp"

text \<open>
  \<open>cols.reduce((a, b) => a + b, 0) / cols.length\<close>. With no sampled line this is
  \<open>0 / 0 = NaN\<close>, the value \<open>None\<close> here, and \<open>NaN > maxColumns\<close> is false. Otherwise
  the quotient of a sum of string lengths by a count of at most 5 is taken as the exact
  rational: two such quotients with the same divisor compare in double precision as they
  do exactly.
\<close>

definition average :: "nat list \<Rightarrow> rat option" where
  "average cols = (if cols = [] then None else Some (of_nat (sum_list cols) / of_nat (length cols)))"

definition detectStep :: "jstring list \<Rightarrow> jchar \<Rightarrow> jchar \<times> rat \<Rightarrow> jchar \<times> rat" where
  "detectStep smp d acc =
     (case acc of (best, maxColumns) \<Rightarrow>
        (case average (columnCounts smp d) of
           None \<Rightarrow> (best, maxColumns)
         | Some avg \<Rightarrow> if avg > maxColumns then (d, avg) else (best, maxColumns)))"

definition detectFrom :: "jstring list \<Rightarrow> jstring" where
  "detectFrom smp = [fst (fold (detectStep smp) candidates (COMMA, 1))]"

definition detectDelimiter :: "jstring \<Rightarrow> jstring" where
  "detectDelimiter s = detectFrom (sample s)"

section \<open>Values, headers and type inference\<close>

text \<open>
  The values a record can hold: \<open>undefined\<close>, \<open>null\<close>, booleans, numbers, strings, and
  whatever else the caller passes as \<open>defval\<close> (typed \<open>unknown\<close>). Numbers are kept
  abstract: \<open>Number(s)\<close> is a parameter of the model, \<open>None\<close> standing for \<open>NaN\<close>.
\<close>

datatype ('n, 'o) jsval =
  JUndefined | JNull | JBool bool | JNumber 'n | JString jstring | JOther 'o

datatype headersOption = HFlag bool | HNames "jstring list"

text \<open>\<open>.replace\<close> with the pattern \<open>^U+FEFF\<close> removes one leading U+FEFF. \<open>toLowerCase\<close> is the
  runtime's Unicode lower-casing, a parameter of the model. Header names are typed
  \<open>string\<close>, so \<open>h ?? ""\<close> is \<open>h\<close>.\<close>

definition normalizeHeaders ::
  "(jstring \<Rightarrow> jstring) \<Rightarrow> jstring list \<Rightarrow> bool \<Rightarrow> jstring list" where
  "normalizeHeaders toLowerCase hs preserve =
     map (\<lambda>h. let v = (case trim h of [] \<Rightarrow> [] | c # cs \<Rightarrow> if c = BOM then cs else c # cs)
              in if preserve then v else toLowerCase v) hs"

text \<open>The \<open>i\<close> flag on a pattern of ASCII letters, without the \<open>u\<close> flag, folds only
  the ASCII letters.\<close>

definition asciiLower :: "jchar \<Rightarrow> jchar" where
  "asciiLower c = (if 0x41 \<le> c \<and> c \<le> 0x5A then c + 0x20 else c)"

definition isDigit :: "jchar \<Rightarrow> bool" where
  "isDigit c \<longleftrightarrow> 0x30 \<le> c \<and> c \<le> 0x39"

text \<open>\<open>/^-?\d+(\.\d+)?([eE][+-]?\d+)?$/\<close>, read left to right: no alternative of
  the pattern can start where another one does, so the match is deterministic.\<close>

definition matchExponent :: "jstring \<Rightarrow> bool" where
  "matchExponent s \<longleftrightarrow>
     s = [] \<or>
     ((take 1 s = [0x65] \<or> take 1 s = [0x45]) \<and>
      (let t = drop 1 s;
           u = (if take 1 t = [0x2B] \<or> take 1 t = [0x2D] then drop 1 t else t)
       in u \<noteq> [] \<and> list_all isDigit u))"

definition matchFraction :: "jstring \<Rightarrow> bool" where
  "matchFraction s \<longleftrightarrow>
     (if take 1 s = [0x2E]
      then takeWhile isDigit (drop 1 s) \<noteq> [] \<and> matchExponent (dropWhile isDigit (drop 1 s))
      else matchExponent s)"

definition matchNumber :: "jstring \<Rightarrow> bool" where
  "matchNumber s \<longleftrightarrow>
     (let t = (if take 1 s = [0x2D] then drop 1 s else s)
      in takeWhile isDigit t \<noteq> [] \<and> matchFraction (dropWhile isDigit t))"

definition convertToJsTypes ::
  "(jstring \<Rightarrow> 'n option) \<Rightarrow> ('n, 'o) jsval \<Rightarrow> ('n, 'o) jsval" where
  "convertToJsTypes Number v =
     (case v of
        JString str \<Rightarrow>
          (let s = trim str in
           if s = [] then JString []
           else if map asciiLower s = ascii ''true'' \<or> map asciiLower s = ascii ''false''
           then JBool (map asciiLower s = ascii ''true'')
           else if map asciiLower s = ascii ''null'' then JNull
           else if matchNumber s
           then (case Number s of Some n \<Rightarrow> JNumber n | None \<Rightarrow> JString s)
           else JString s)
      | _ \<Rightarrow> v)"

function decimal :: "nat \<Rightarrow> jstring" where
  "decimal n = (if n < 10 then [0x30 + of_nat n] else decimal (n div 10) @ [0x30 + of_nat (n mod 10)])"
  by pat_completeness auto
termination
  by (relation "measure (\<lambda>n. n)") auto

declare decimal.simps [simp del]

text \<open>The template literal \<open>`c${i}`\<close>.\<close>

definition synthName :: "nat \<Rightarrow> jstring" where
  "synthName i = 0x63 # decimal i"

definition widestRow :: "jstring list list \<Rightarrow> nat" where
  "widestRow rows = fold (\<lambda>r w. if length r > w then length r else w) rows 0"

section \<open>Header resolution and record projection (\<open>parseCSV\<close>)\<close>

text \<open>Every field of \<open>CsvOptions\<close> is optional; \<open>None\<close> is \<open>undefined\<close>.\<close>

record ('n, 'o) CsvOptions =
  delimiter :: "jstring option"
  headers :: "headersOption option"
  preserveHeaderCase :: "bool option"
  comment :: "jstring option"
  skipEmptyLines :: "bool option"
  defval :: "('n, 'o) jsval option"
  inferTypes :: "bool option"
  trimCells :: "bool option"

definition orDefault :: "'a \<Rightarrow> 'a option \<Rightarrow> 'a" where
  "orDefault dflt v = (case v of None \<Rightarrow> dflt | Some x \<Rightarrow> x)"

text \<open>\<open>defval = null\<close> in the destructuring: the default replaces \<open>undefined\<close> only.\<close>

definition defvalOf :: "('n, 'o) CsvOptions \<Rightarrow> ('n, 'o) jsval" where
  "defvalOf opts = (case defval opts of None \<Rightarrow> JNull | Some JUndefined \<Rightarrow> JNull | Some v \<Rightarrow> v)"

text \<open>Lines 36 to 42: the text (a string input is its own text), without its BOM, is
  tokenized with the configured delimiter or, when there is none, the detected one.\<close>

definition delimiterOf :: "('n, 'o) CsvOptions \<Rightarrow> jstring \<Rightarrow> jstring" where
  "delimiterOf opts cleaned =
     (case delimiter opts of None \<Rightarrow> detectDelimiter cleaned | Some d \<Rightarrow> d)"

definition rowsOf :: "('n, 'o) CsvOptions \<Rightarrow> jstring \<Rightarrow> jstring list list" where
  "rowsOf opts input =
     (let cleaned = stripBOM input
      in parseRows cleaned (delimiterOf opts cleaned) (comment opts)
           (orDefault True (skipEmptyLines opts)))"

text \<open>Lines 46 to 57, reached only when there is at least one row: the header names
  and \<open>dataStart\<close>.\<close>

definition resolveHeaders ::
  "(jstring \<Rightarrow> jstring) \<Rightarrow> headersOption \<Rightarrow> bool \<Rightarrow> jstring list list \<Rightarrow> jstring list \<times> nat" where
  "resolveHeaders toLowerCase headersOption preserve rows =
     (case headersOption of
        HNames hs \<Rightarrow> (normalizeHeaders toLowerCase hs preserve, 1)
      | HFlag b \<Rightarrow>
          if b = False then (map synthName [0..<length (rows ! 0)], 0)
          else (normalizeHeaders toLowerCase (rows ! 0) preserve, 1))"

text \<open>Lines 59 to 62.\<close>

definition widenHeaders :: "jstring list \<Rightarrow> nat \<Rightarrow> jstring list" where
  "widenHeaders headerNames width =
     headerNames @ map synthName [length headerNames..<width]"

text \<open>Lines 70 to 72. \<open>row[c]\<close> past the end of the row is \<open>undefined\<close>, the cell
  \<open>None\<close>. The conditional operator binds weaker than \<open>??\<close>: the expression is
  \<open>inferTypes ? convertToJsTypes(cell) : (cell ?? defval)\<close>.\<close>

definition cellValue ::
  "(jstring \<Rightarrow> 'n option) \<Rightarrow> bool \<Rightarrow> bool \<Rightarrow> ('n, 'o) jsval \<Rightarrow> jstring option \<Rightarrow> ('n, 'o) jsval" where
  "cellValue Number trimC infer dv cell =
     (let cell' = (case cell of None \<Rightarrow> None | Some s \<Rightarrow> if trimC then Some (trim s) else Some s)
      in if infer
         then convertToJsTypes Number (case cell' of None \<Rightarrow> JUndefined | Some s \<Rightarrow> JString s)
         else (case cell' of None \<Rightarrow> dv | Some s \<Rightarrow> JString s))"

text \<open>
  A record is the list of its keys with their values, a key at the place of its first
  assignment; \<open>csvRow[key] = v\<close> is \<open>AList.update key v\<close>. The list stands for the set
  of keys and the value under each key only. Its order is the order of assignment, which
  is the order in which the object enumerates its keys as long as no key is the canonical
  numeral of an array index (such keys are enumerated first, in ascending order); no
  general statement below is about that order. The one key an object literal does not
  take by assignment is \<open>__proto__\<close>; statements about the keys of a record leave that
  header name out.
\<close>

type_synonym ('n, 'o) CsvRow = "(jstring \<times> ('n, 'o) jsval) list"

definition projectRow ::
  "(jstring \<Rightarrow> 'n option) \<Rightarrow> bool \<Rightarrow> bool \<Rightarrow> ('n, 'o) jsval \<Rightarrow> jstring list \<Rightarrow> nat \<Rightarrow>
   jstring list \<Rightarrow> ('n, 'o) CsvRow" where
  "projectRow Number trimC infer dv headerNames width r =
     fold (\<lambda>c csvRow.
             AList.update (headerNames ! c)
               (cellValue Number trimC infer dv (if c < length r then Some (r ! c) else None))
               csvRow)
       [0..<width] []"

definition parseCSV ::
  "(jstring \<Rightarrow> jstring) \<Rightarrow> (jstring \<Rightarrow> 'n option) \<Rightarrow> jstring \<Rightarrow> ('n, 'o) CsvOptions \<Rightarrow>
   ('n, 'o) CsvRow list" where
  "parseCSV toLowerCase Number input opts =
     (let headersOption = orDefault (HFlag True) (headers opts);
          preserve = orDefault False (preserveHeaderCase opts);
          dv = defvalOf opts;
          infer = orDefault False (inferTypes opts);
          trimC = orDefault True (trimCells opts);
          rows = rowsOf opts input
      in if rows = [] then []
         else (case resolveHeaders toLowerCase headersOption preserve rows of
                 (headerNames, dataStart) \<Rightarrow>
                   let width = max (length headerNames) (widestRow rows);
                       names = widenHeaders headerNames width
                   in map (projectRow Number trimC infer dv names width) (drop dataStart rows)))"

text \<open>Lines 59 to 76 as one stage: from the resolved header names, \<open>dataStart\<close> and
  the rows to the records.\<close>

definition projectRows ::
  "(jstring \<Rightarrow> 'n option) \<Rightarrow> ('n, 'o) CsvOptions \<Rightarrow> jstring list \<Rightarrow> nat \<Rightarrow> jstring list list \<Rightarrow>
   ('n, 'o) CsvRow list" where
  "projectRows Number opts headerNames dataStart rows =
     (let width = max (length headerNames) (widestRow rows);
          names = widenHeaders headerNames width
      in map (projectRow Number (orDefault True (trimCells opts)) (orDefault False (inferTypes opts))
                (defvalOf opts) names width)
           (drop dataStart rows))"

text \<open>The options object \<open>{}\<close>.\<close>

definition defaultOptions :: "('n, 'o) CsvOptions" where
  "defaultOptions =
     \<lparr>delimiter = None, headers = None, preserveHeaderCase = None, comment = None,
      skipEmptyLines = None, defval = None, inferTypes = None, trimCells = None\<rparr>"

text \<open>Lower-casing of ASCII text, to run the model on examples.\<close>

definition asciiToLowerCase :: "jstring \<Rightarrow> jstring" where
  "asciiToLowerCase s = map asciiLower s"

section \<open>Predicates and encoders used in the statements\<close>

text \<open>The tokenizer has no open row and every row it has emitted has one field.\<close>

definition oneField :: "tokenizer \<Rightarrow> bool" where
  "oneField st \<longleftrightarrow> row st = [] \<and> (\<forall>r\<in>set (lines st). length r = 1)"

text \<open>
  The sample as claim C3 words it, to compare with \<open>sample\<close>: the text split at
  every carriage return, line feed or carriage return with line feed, and the first five
  non-empty lines of that.
\<close>

fun splitRelaxed :: "jstring \<Rightarrow> jstring list" where
  "splitRelaxed [] = [[]]"
| "splitRelaxed (c # cs) =
     (if c = CR \<and> take 1 cs = [LF] then [] # splitRelaxed (drop 1 cs)
      else if c = LF \<or> c = CR then [] # splitRelaxed cs
      else (case splitRelaxed cs of [] \<Rightarrow> [[c]] | l # ls \<Rightarrow> (c # l) # ls))"

definition claimedSample :: "jstring \<Rightarrow> jstring list" where
  "claimedSample s = take 5 (filter (\<lambda>line. line \<noteq> []) (splitRelaxed s))"

text \<open>The average column count of a candidate over a non-empty sample, the value of
  \<open>average\<close> there.\<close>

definition meanColumns :: "jstring list \<Rightarrow> jchar \<Rightarrow> rat" where
  "meanColumns smp d = of_nat (sum_list (columnCounts smp d)) / of_nat (length smp)"

text \<open>Standard CSV quoting of a field: every quote character doubled, the whole
  wrapped in quotes.\<close>

definition escapeQuotes :: "jstring \<Rightarrow> jstring" where
  "escapeQuotes s = concat (map (\<lambda>c. if c = DQUOTE then [DQUOTE, DQUOTE] else [c]) s)"

definition quoteField :: "jstring \<Rightarrow> jstring" where
  "quoteField s = DQUOTE # escapeQuotes s @ [DQUOTE]"

text \<open>A text with every line feed preceded by a carriage return.\<close>

definition crlf :: "jstring \<Rightarrow> jstring" where
  "crlf s = concat (map (\<lambda>c. if c = LF then [CR, LF] else [c]) s)"




section \<open>The branches of the tokenizer loop\<close>

declare scanRows.simps(2) [simp del]

lemma scan_comment:
  "commentStart cm st ch \<Longrightarrow>
   scanRows d cm sk st (ch # rest) =
     scanRows d cm sk st (drop 1 (dropWhile (\<lambda>c. c \<noteq> LF) (ch # rest)))"
  by (simp add: scanRows.simps(2))

lemma scan_escaped:
  "\<not> commentStart cm st DQUOTE \<Longrightarrow> inQuotes st \<Longrightarrow> take 1 rest = [DQUOTE] \<Longrightarrow>
   scanRows d cm sk st (DQUOTE # rest) =
     scanRows d cm sk (st\<lparr>field := field st @ [DQUOTE]\<rparr>) (drop 1 rest)"
  by (simp add: scanRows.simps(2))

lemma scan_toggle:
  "\<not> commentStart cm st DQUOTE \<Longrightarrow> \<not> (inQuotes st \<and> take 1 rest = [DQUOTE]) \<Longrightarrow>
   scanRows d cm sk st (DQUOTE # rest) =
     scanRows d cm sk (st\<lparr>inQuotes := \<not> inQuotes st\<rparr>) rest"
  by (auto simp add: scanRows.simps(2))

lemma scan_delim:
  "\<not> commentStart cm st ch \<Longrightarrow> ch \<noteq> DQUOTE \<Longrightarrow> \<not> inQuotes st \<Longrightarrow> [ch] = d \<Longrightarrow>
   scanRows d cm sk st (ch # rest) = scanRows d cm sk (pushField st) rest"
  by (simp add: scanRows.simps(2))

lemma scan_newline:
  "\<not> commentStart cm st ch \<Longrightarrow> ch \<noteq> DQUOTE \<Longrightarrow> \<not> inQuotes st \<Longrightarrow> [ch] \<noteq> d \<Longrightarrow>
   ch = LF \<or> ch = CR \<Longrightarrow>
   scanRows d cm sk st (ch # rest) =
     scanRows d cm sk (pushRow sk (pushField st))
       (if ch = CR \<and> take 1 rest = [LF] then drop 1 rest else rest)"
  by (simp add: scanRows.simps(2))

lemma scan_other:
  "\<not> commentStart cm st ch \<Longrightarrow> ch \<noteq> DQUOTE \<Longrightarrow>
   inQuotes st \<or> ([ch] \<noteq> d \<and> ch \<noteq> LF \<and> ch \<noteq> CR) \<Longrightarrow>
   scanRows d cm sk st (ch # rest) = scanRows d cm sk (st\<lparr>field := field st @ [ch]\<rparr>) rest"
  by (auto simp add: scanRows.simps(2))

lemma commentStart_inQuotes [simp]: "inQuotes st \<Longrightarrow> \<not> commentStart cm st ch"
  by (simp add: commentStart_def)

lemma commentStart_None [simp]: "\<not> commentStart None st ch"
  by (simp add: commentStart_def)

section \<open>Delimiters of more than one character\<close>

lemma oneField_field [simp]: "oneField (st\<lparr>field := f\<rparr>) = oneField st"
  by (simp add: oneField_def)

lemma oneField_inQuotes [simp]: "oneField (st\<lparr>inQuotes := q\<rparr>) = oneField st"
  by (simp add: oneField_def)

lemma oneField_pushRow: "oneField st \<Longrightarrow> oneField (pushRow sk (pushField st))"
  by (simp add: oneField_def pushRow_def pushField_def)

lemma scanRows_oneField:
  "length d \<noteq> 1 \<Longrightarrow> oneField st \<Longrightarrow> oneField (scanRows d cm sk st inp)"
proof (induction d cm sk st inp rule: scanRows.induct)
  case (1 d cm sk st)
  then show ?case by simp
next
  case (2 d cm sk st ch rest)
  have nd: "[ch] \<noteq> d" using "2.prems"(1) by auto
  note pr = "2.prems"
  show ?case
  proof (cases "commentStart cm st ch")
    case True
    then show ?thesis using "2.IH"(1) pr by (simp add: scan_comment)
  next
    case c1: False
    show ?thesis
    proof (cases "ch = DQUOTE")
      case q: True
      show ?thesis
      proof (cases "inQuotes st \<and> take 1 rest = [DQUOTE]")
        case True
        then show ?thesis using "2.IH"(2) c1 q pr by (simp add: scan_escaped)
      next
        case False
        then show ?thesis using "2.IH"(3) c1 q pr by (simp add: scan_toggle)
      qed
    next
      case c2: False
      show ?thesis
      proof (cases "\<not> inQuotes st \<and> (ch = LF \<or> ch = CR)")
        case True
        then show ?thesis using "2.IH"(5) [OF c1 c2] nd pr oneField_pushRow c1 c2
          by (simp add: scan_newline)
      next
        case False
        then have "scanRows d cm sk st (ch # rest) =
            scanRows d cm sk (st\<lparr>field := field st @ [ch]\<rparr>) rest"
          using c1 c2 nd by (intro scan_other) auto
        then show ?thesis using "2.IH"(6) [OF c1 c2] False nd pr by simp
      qed
    qed
  qed
qed

lemma scanRows_delimiter_irrelevant:
  "length d \<noteq> 1 \<Longrightarrow> length d' \<noteq> 1 \<Longrightarrow> scanRows d cm sk st inp = scanRows d' cm sk st inp"
proof (induction d cm sk st inp rule: scanRows.induct)
  case (1 d cm sk st)
  then show ?case by simp
next
  case (2 d cm sk st ch rest)
  have nd: "[ch] \<noteq> d" "[ch] \<noteq> d'" using "2.prems" by auto
  note pr = "2.prems"
  show ?case
  proof (cases "commentStart cm st ch")
    case True
    then show ?thesis using "2.IH"(1) pr by (simp add: scan_comment)
  next
    case c1: False
    show ?thesis
    proof (cases "ch = DQUOTE")
      case q: True
      show ?thesis
      proof (cases "inQuotes st \<and> take 1 rest = [DQUOTE]")
        case True
        then show ?thesis using "2.IH"(2) c1 q pr by (simp add: scan_escaped)
      next
        case False
        then show ?thesis using "2.IH"(3) c1 q pr by (simp add: scan_toggle)
      qed
    next
      case c2: False
      show ?thesis
      proof (cases "\<not> inQuotes st \<and> (ch = LF \<or> ch = CR)")
        case True
        then show ?thesis using "2.IH"(5) [OF c1 c2] nd pr c1 c2
          by (simp add: scan_newline)
      next
        case False
        then have "scanRows d cm sk st (ch # rest) =
            scanRows d cm sk (st\<lparr>field := field st @ [ch]\<rparr>) rest"
          "scanRows d' cm sk st (ch # rest) =
            scanRows d' cm sk (st\<lparr>field := field st @ [ch]\<rparr>) rest"
          using c1 c2 nd by (auto intro!: scan_other)
        then show ?thesis using "2.IH"(6) [OF c1 c2] False nd pr by simp
      qed
    qed
  qed
qed

text \<open>
  Claim C10. The tokenizer compares the one-character string \<open>ch\<close> with the whole
  delimiter string. For a delimiter of two or more characters the comparison never
  holds: every row the tokenizer emits has exactly one field, and the rows are those
  obtained with a delimiter that can match nothing (the empty string).
\<close>

theorem multichar_delimiter_never_splits:
  "2 \<le> length d \<Longrightarrow>
     (\<forall>r \<in> set (parseRows inp d cm sk). length r = 1) \<and>
     parseRows inp d cm sk = parseRows inp [] cm sk"
proof -
  assume d: "2 \<le> length d"
  then have d1: "length d \<noteq> 1" by simp
  let ?st = "scanRows d cm sk initial inp"
  have "oneField initial" by (simp add: oneField_def initial_def)
  then have inv: "oneField ?st"
    by (rule scanRows_oneField [OF d1])
  have a: "\<forall>r \<in> set (parseRows inp d cm sk). length r = 1"
    using inv by (simp add: oneField_def parseRows_def finish_def pushField_def pushRow_def Let_def)
  have b: "parseRows inp d cm sk = parseRows inp [] cm sk"
    using scanRows_delimiter_irrelevant [OF d1, of "[]"] by (simp add: parseRows_def)
  from a b show ?thesis by simp
qed

text \<open>On \<open>a,,b\<close>, a line feed, \<open>c\<close>: the delimiter \<open>,,\<close> leaves each line whole.\<close>

theorem multichar_delimiter_never_splits_witness:
  "2 \<le> length (ascii '',,'') \<and>
   parseRows (ascii ''a,,b'' @ [LF] @ ascii ''c'') (ascii '',,'') None True =
     parseRows (ascii ''a,,b'' @ [LF] @ ascii ''c'') [] None True \<and>
   parseRows (ascii ''a,,b'' @ [LF] @ ascii ''c'') [] None True =
     [[ascii ''a,,b''], [ascii ''c'']]"
proof -
  have len: "2 \<le> length (ascii '',,'')" by (simp add: ascii_def)
  have run: "parseRows (ascii ''a,,b'' @ [LF] @ ascii ''c'') [] None True =
     [[ascii ''a,,b''], [ascii ''c'']]"
    by code_simp
  show ?thesis
    using multichar_delimiter_never_splits
      [OF len, of "ascii ''a,,b'' @ [LF] @ ascii ''c''" None True] len run
    by simp
qed

section \<open>End of input\<close>

text \<open>
  Claim C9 as stated: at end of input the final row is emitted if and only if the row
  buffer, after the last field is closed, has more than one field or a non-empty single
  field. On the text of one space, with \<open>skipEmptyLines\<close> on, the row buffer holds the
  single non-empty field of one space when the input ends, nothing was emitted before,
  and yet no row is emitted: \<open>pushRow\<close> applies the empty-line test to the final row
  too.
\<close>

theorem final_row_whitespace_counterexample:
  "row (pushField (scanRows [COMMA] None True initial (ascii '' ''))) = [ascii '' ''] \<and>
   lines (scanRows [COMMA] None True initial (ascii '' '')) = [] \<and>
   parseRows (ascii '' '') [COMMA] None True = []"
  by code_simp

text \<open>
  Claim C9, amended. At end of input the current field is closed unconditionally. The
  final row is then emitted if and only if it has more than one field or a non-empty
  single field, and it is not, with \<open>skipEmptyLines\<close> on, a single field that is empty
  after trimming; otherwise it is discarded.
\<close>

theorem final_row_emission:
  "parseRows inp d cm sk =
     (let st = scanRows d cm sk initial inp;
          final = row st @ [field st]
      in if (length final > 1 \<or> final ! 0 \<noteq> []) \<and>
            \<not> (sk \<and> length final = 1 \<and> trim (final ! 0) = [])
         then lines st @ [final] else lines st)"
  by (cases sk) (auto simp add: parseRows_def finish_def pushField_def pushRow_def Let_def)

text \<open>A last line of one space is dropped with \<open>skipEmptyLines\<close> on and kept with it
  off.\<close>

theorem final_row_emission_witness:
  "parseRows (ascii ''a'' @ [LF] @ ascii '' '') [COMMA] None True = [[ascii ''a'']] \<and>
   parseRows (ascii ''a'' @ [LF] @ ascii '' '') [COMMA] None False = [[ascii ''a''], [ascii '' '']]"
proof -
  have "parseRows (ascii ''a'' @ [LF] @ ascii '' '') [COMMA] None True =
     (let st = scanRows [COMMA] None True initial (ascii ''a'' @ [LF] @ ascii '' '');
          final = row st @ [field st]
      in if (length final > 1 \<or> final ! 0 \<noteq> []) \<and>
            \<not> (True \<and> length final = 1 \<and> trim (final ! 0) = [])
         then lines st @ [final] else lines st)"
    by (rule final_row_emission)
  also have "\<dots> = [[ascii ''a'']]"
    by code_simp
  finally have a: "parseRows (ascii ''a'' @ [LF] @ ascii '' '') [COMMA] None True = [[ascii ''a'']]" .
  have "parseRows (ascii ''a'' @ [LF] @ ascii '' '') [COMMA] None False =
     (let st = scanRows [COMMA] None False initial (ascii ''a'' @ [LF] @ ascii '' '');
          final = row st @ [field st]
      in if (length final > 1 \<or> final ! 0 \<noteq> []) \<and>
            \<not> (False \<and> length final = 1 \<and> trim (final ! 0) = [])
         then lines st @ [final] else lines st)"
    by (rule final_row_emission)
  also have "\<dots> = [[ascii ''a''], [ascii '' '']]"
    by code_simp
  finally have b: "parseRows (ascii ''a'' @ [LF] @ ascii '' '') [COMMA] None False =
      [[ascii ''a''], [ascii '' '']]" .
  from a b show ?thesis by simp
qed

section \<open>Comment lines\<close>

text \<open>
  Claim C7, at a failing input. The claim has a comment start at a character equal to
  the first character of the configured prefix, also for a prefix of more than one
  character, and the option is documented as skipping the lines that start with the
  prefix. With the prefix \<open>#x\<close> and the text \<open>#x\<close>, line feed, \<open>a\<close>, the character
  \<open>#\<close> at the start of the text does not start a comment: the line \<open>#x\<close> is tokenized
  as a row and becomes the header of the record. With the prefix \<open>#\<close> the same line is
  skipped.
\<close>

theorem long_comment_prefix_not_skipped:
  "\<not> commentStart (Some (ascii ''#x'')) initial 0x23 \<and>
   parseRows (ascii ''#x'' @ [LF] @ ascii ''a'') [COMMA] (Some (ascii ''#x'')) True =
     [[ascii ''#x''], [ascii ''a'']] \<and>
   parseCSV asciiToLowerCase (\<lambda>s. None) (ascii ''#x'' @ [LF] @ ascii ''a'')
       ((defaultOptions :: (unit, unit) CsvOptions)\<lparr>comment := Some (ascii ''#x'')\<rparr>) =
     [[(ascii ''#x'', JString (ascii ''a''))]] \<and>
   parseCSV asciiToLowerCase (\<lambda>s. None) (ascii ''#x'' @ [LF] @ ascii ''a'')
       ((defaultOptions :: (unit, unit) CsvOptions)\<lparr>comment := Some (ascii ''#'')\<rparr>) = []"
  by code_simp

text \<open>The comparison is of the one-character string \<open>ch\<close> with the whole prefix: a
  prefix that is not of exactly one character never starts a comment, and the tokenizer
  runs as with no prefix at all.\<close>

lemma commentStart_long: "length c \<noteq> 1 \<Longrightarrow> \<not> commentStart (Some c) st ch"
  by (auto simp: commentStart_def)

lemma long_comment_prefix_dead:
  "length c \<noteq> 1 \<Longrightarrow> scanRows d (Some c) sk st inp = scanRows d None sk st inp"
proof (induction d "Some c" sk st inp rule: scanRows.induct)
  case (1 d sk st)
  then show ?case by simp
next
  case (2 d sk st ch rest)
  note pr = "2.prems"
  have c1: "\<not> commentStart (Some c) st ch" using pr by (rule commentStart_long)
  have n1: "\<not> commentStart None st ch" by simp
  show ?case
  proof (cases "ch = DQUOTE")
    case q: True
    show ?thesis
    proof (cases "inQuotes st \<and> take 1 rest = [DQUOTE]")
      case True
      then show ?thesis using "2.hyps"(2) [OF c1 q True pr] c1 n1 q by (simp add: scan_escaped)
    next
      case False
      then show ?thesis using "2.hyps"(3) [OF c1 q False pr] c1 n1 q by (simp add: scan_toggle)
    qed
  next
    case c2: False
    show ?thesis
    proof (cases "\<not> inQuotes st \<and> [ch] = d")
      case True
      then show ?thesis using "2.hyps"(4) [OF c1 c2 True pr] c1 n1 c2 by (simp add: scan_delim)
    next
      case c3: False
      show ?thesis
      proof (cases "\<not> inQuotes st \<and> (ch = LF \<or> ch = CR)")
        case True
        then have nd: "[ch] \<noteq> d" using c3 by simp
        show ?thesis using "2.hyps"(5) [OF c1 c2 c3 True pr] c1 n1 c2 nd True
          by (simp add: scan_newline)
      next
        case c4: False
        have oth: "inQuotes st \<or> ([ch] \<noteq> d \<and> ch \<noteq> LF \<and> ch \<noteq> CR)" using c3 c4 by auto
        have "scanRows d (Some c) sk st (ch # rest) =
            scanRows d (Some c) sk (st\<lparr>field := field st @ [ch]\<rparr>) rest"
          using c1 c2 oth by (rule scan_other)
        moreover have "scanRows d None sk st (ch # rest) =
            scanRows d None sk (st\<lparr>field := field st @ [ch]\<rparr>) rest"
          using n1 c2 oth by (rule scan_other)
        ultimately show ?thesis using "2.hyps"(6) [OF c1 c2 c3 c4 pr] by simp
      qed
    qed
  qed
qed

lemma dropWhile_upto_LF:
  "LF \<notin> set pre \<Longrightarrow> dropWhile (\<lambda>c. c \<noteq> LF) (pre @ LF # rest) = LF # rest"
  by (induction pre) auto

lemma dropWhile_no_LF:
  "LF \<notin> set pre \<Longrightarrow> dropWhile (\<lambda>c. c \<noteq> LF) pre = []"
  by (induction pre) auto

text \<open>
  For a prefix of exactly one character \<open>c\<close> the branch does what the claim says. When
  the tokenizer is outside quotes with an empty field buffer and an empty row buffer,
  and the text starts with \<open>c\<close>, the characters up to and including the next line feed
  are skipped and the tokenizer state is unchanged: no field and no row is emitted. When
  no line feed follows, the rest of the text is skipped.
\<close>

lemma comment_line_skipped:
  assumes start: "\<not> inQuotes st" "field st = []" "row st = []"
    and pre: "LF \<notin> set pre" "hd (pre @ [LF]) = c"
  shows "scanRows d (Some [c]) sk st (pre @ LF # rest) = scanRows d (Some [c]) sk st rest \<and>
         (pre \<noteq> [] \<longrightarrow> scanRows d (Some [c]) sk st pre = st)"
proof -
  have cs: "commentStart (Some [c]) st c"
    using start by (simp add: commentStart_def)
  have a: "scanRows d (Some [c]) sk st (pre @ LF # rest) = scanRows d (Some [c]) sk st rest"
  proof (cases pre)
    case Nil
    then have "c = LF" using pre(2) by simp
    then show ?thesis using Nil scan_comment [OF cs, of d sk rest] by simp
  next
    case (Cons x xs)
    then have x: "x = c" using pre(2) by simp
    have "dropWhile (\<lambda>c. c \<noteq> LF) (pre @ LF # rest) = LF # rest"
      using pre(1) by (rule dropWhile_upto_LF)
    then show ?thesis
      using Cons x scan_comment [OF cs, of d sk "xs @ LF # rest"] by simp
  qed
  have b: "pre \<noteq> [] \<longrightarrow> scanRows d (Some [c]) sk st pre = st"
  proof
    assume "pre \<noteq> []"
    then obtain xs where p: "pre = c # xs" using pre(2) by (cases pre) auto
    have "dropWhile (\<lambda>c. c \<noteq> LF) pre = []"
      using pre(1) by (rule dropWhile_no_LF)
    then show "scanRows d (Some [c]) sk st pre = st"
      using p scan_comment [OF cs, of d sk xs] by simp
  qed
  from a b show ?thesis by simp
qed

text \<open>With the prefix \<open>#\<close>, the line \<open>#x,y\<close> leaves no row.\<close>

lemma comment_line_skipped_example:
  "parseRows (ascii ''#x,y'' @ [LF] @ ascii ''a'') [COMMA] (Some (ascii ''#'')) True = [[ascii ''a'']]"
proof -
  have i: "\<not> inQuotes initial" "field initial = []" "row initial = []"
    by (simp_all add: initial_def)
  have p: "LF \<notin> set (ascii ''#x,y'')" "hd (ascii ''#x,y'' @ [LF]) = 0x23"
    by (simp_all add: ascii_def)
  have r: "parseRows (ascii ''a'') [COMMA] (Some [0x23]) True = [[ascii ''a'']]"
    by code_simp
  have h: "ascii ''#'' = [0x23]" by (simp add: ascii_def)
  show ?thesis
    using comment_line_skipped [OF i p, of "[COMMA]" True "ascii ''a''"] r
    by (simp add: parseRows_def h)
qed

section \<open>The delimiter detector\<close>

text \<open>
  Claim C3 as stated: the sample is the first five non-empty lines of the text split at
  CR, LF or CRLF. After five line feeds the code's sample is empty, because only the
  first five pieces are looked at, while the claimed sample holds the line \<open>a;b\<close>; the
  detector answers comma where the claimed sample would give semicolon. And a carriage
  return alone does not end a line of the sample.
\<close>

theorem detector_sample_counterexample:
  "sample ([LF, LF, LF, LF, LF] @ ascii ''a;b'') = [] \<and>
   claimedSample ([LF, LF, LF, LF, LF] @ ascii ''a;b'') = [ascii ''a;b''] \<and>
   detectDelimiter ([LF, LF, LF, LF, LF] @ ascii ''a;b'') = [COMMA] \<and>
   detectFrom (claimedSample ([LF, LF, LF, LF, LF] @ ascii ''a;b'')) = [SEMICOLON] \<and>
   sample (ascii ''a;b'' @ [CR] @ ascii ''c;d'') = [ascii ''a;b'' @ [CR] @ ascii ''c;d''] \<and>
   claimedSample (ascii ''a;b'' @ [CR] @ ascii ''c;d'') = [ascii ''a;b'', ascii ''c;d'']"
  by code_simp

lemma take1_no_LF: "LF \<notin> set s \<Longrightarrow> take 1 s \<noteq> [LF]"
  by (cases s) auto

lemma splitLines_no_LF: "LF \<notin> set s \<Longrightarrow> splitLines s = [s]"
  by (induction s) (auto simp: take1_no_LF simp del: take_Suc_Cons One_nat_def)

lemma splitLines_first_LF:
  "LF \<notin> set l \<Longrightarrow>
   splitLines (l @ LF # rest) =
     (if l \<noteq> [] \<and> last l = CR then butlast l else l) # splitLines rest"
proof (induction l)
  case Nil
  then show ?case by simp
next
  case (Cons c l)
  then have c: "c \<noteq> LF" and l: "LF \<notin> set l" by auto
  show ?case
  proof (cases "l = []")
    case True
    then show ?thesis using c by simp
  next
    case False
    then have "take 1 (l @ LF # rest) \<noteq> [LF]" using l by (cases l) auto
    then show ?thesis using Cons.IH [OF l] c False by simp
  qed
qed

lemma detectFrom_empty: "detectFrom [] = [COMMA]"
  by (simp add: detectFrom_def candidates_def detectStep_def average_def columnCounts_def)

text \<open>
  Claim C3, amended. The sample is made of the non-empty pieces among the first five
  pieces of the text split at each line feed, where a carriage return directly before
  the line feed belongs to the line ending. A text with no line feed is a single piece
  (a carriage return alone does not split), and the first piece of a text ends at its
  first line feed, less one carriage return before it. For every text whose sample is
  empty the detector returns comma.
\<close>

theorem detector_sample:
  "sample s = filter (\<lambda>line. line \<noteq> []) (take 5 (splitLines s)) \<and>
   (LF \<notin> set s \<longrightarrow> splitLines s = [s]) \<and>
   (\<forall>l rest. s = l @ LF # rest \<and> LF \<notin> set l \<longrightarrow>
      splitLines s = (if l \<noteq> [] \<and> last l = CR then butlast l else l) # splitLines rest) \<and>
   (sample s = [] \<longrightarrow> detectDelimiter s = [COMMA])"
  using splitLines_no_LF splitLines_first_LF detectFrom_empty
  by (simp add: sample_def detectDelimiter_def)

text \<open>The text CR LF LF has three empty pieces, an empty sample and the answer
  comma; the text CR CR is one piece.\<close>

theorem detector_sample_witness:
  "sample ([CR, LF] @ [LF]) = [] \<and> detectDelimiter ([CR, LF] @ [LF]) = [COMMA] \<and>
   splitLines ([CR, LF] @ [LF]) = [[], [], []] \<and> splitLines [CR, CR] = [[CR, CR]]"
proof -
  have e: "sample ([CR, LF] @ [LF]) = []" by code_simp
  have n: "LF \<notin> set [CR, CR]" "LF \<notin> set [CR]" by simp_all
  have r: "splitLines [LF] = [[], []]" by simp
  show ?thesis
    using detector_sample [of "[CR, LF] @ [LF]"] detector_sample [of "[CR, CR]"] e n r
    by simp
qed

lemma splitChar_nonempty: "splitChar d l \<noteq> []"
  by (induction l) (auto split: list.splits)

lemma columnCounts_sum: "length smp \<le> sum_list (columnCounts smp d)"
proof (induction smp)
  case Nil
  then show ?case by (simp add: columnCounts_def)
next
  case (Cons l smp)
  have "1 \<le> length (splitChar d l)"
    using splitChar_nonempty [of d l] by (cases "splitChar d l") simp_all
  then show ?case using Cons by (simp add: columnCounts_def)
qed

lemma meanColumns_ge_1: "smp \<noteq> [] \<Longrightarrow> 1 \<le> meanColumns smp d"
proof -
  assume ne: "smp \<noteq> []"
  then have pos: "(0::rat) < of_nat (length smp)" by simp
  have "(of_nat (length smp) :: rat) \<le> of_nat (sum_list (columnCounts smp d))"
    using columnCounts_sum [of smp d] by (simp only: of_nat_le_iff)
  then show ?thesis
    using pos by (simp add: meanColumns_def le_divide_eq)
qed

lemma average_mean: "smp \<noteq> [] \<Longrightarrow> average (columnCounts smp d) = Some (meanColumns smp d)"
  by (simp add: average_def meanColumns_def columnCounts_def)

lemma detectStep_mean:
  "smp \<noteq> [] \<Longrightarrow>
   detectStep smp d (best, mx) = (if meanColumns smp d > mx then (d, meanColumns smp d) else (best, mx))"
  by (simp add: detectStep_def average_mean)

lemma detectFrom_unfold:
  assumes ne: "smp \<noteq> []"
  shows "detectFrom smp =
    [if meanColumns smp PIPE > max (max (max 1 (meanColumns smp COMMA)) (meanColumns smp SEMICOLON)) (meanColumns smp TAB) then PIPE
     else if meanColumns smp TAB > max (max 1 (meanColumns smp COMMA)) (meanColumns smp SEMICOLON) then TAB
     else if meanColumns smp SEMICOLON > max 1 (meanColumns smp COMMA) then SEMICOLON
     else COMMA]"
  by (simp add: detectFrom_def candidates_def detectStep_mean [OF ne] max_def)


lemma detectFrom_cases:
  assumes ne: "smp \<noteq> []"
  shows "(detectFrom smp = [PIPE] \<and> meanColumns smp COMMA < meanColumns smp PIPE \<and>
            meanColumns smp SEMICOLON < meanColumns smp PIPE \<and>
            meanColumns smp TAB < meanColumns smp PIPE) \<or>
         (detectFrom smp = [TAB] \<and> meanColumns smp COMMA < meanColumns smp TAB \<and>
            meanColumns smp SEMICOLON < meanColumns smp TAB \<and>
            meanColumns smp PIPE \<le> meanColumns smp TAB) \<or>
         (detectFrom smp = [SEMICOLON] \<and> meanColumns smp COMMA < meanColumns smp SEMICOLON \<and>
            meanColumns smp TAB \<le> meanColumns smp SEMICOLON \<and>
            meanColumns smp PIPE \<le> meanColumns smp SEMICOLON) \<or>
         (detectFrom smp = [COMMA] \<and> meanColumns smp SEMICOLON \<le> meanColumns smp COMMA \<and>
            meanColumns smp TAB \<le> meanColumns smp COMMA \<and>
            meanColumns smp PIPE \<le> meanColumns smp COMMA)"
proof -
  let ?a = "meanColumns smp COMMA" and ?b = "meanColumns smp SEMICOLON"
    and ?c = "meanColumns smp TAB" and ?e = "meanColumns smp PIPE"
  have m1: "max 1 ?a = ?a"
    using meanColumns_ge_1 [OF ne, of COMMA] by (simp add: max_absorb2)
  note u = detectFrom_unfold [OF ne, unfolded m1]
  show ?thesis
  proof (cases "max (max ?a ?b) ?c < ?e")
    case True
    then have "detectFrom smp = [PIPE]" by (simp only: u if_True)
    moreover have "?a < ?e" "?b < ?e" "?c < ?e" using True by simp_all
    ultimately show ?thesis by simp
  next
    case n1: False
    show ?thesis
    proof (cases "max ?a ?b < ?c")
      case True
      then have "detectFrom smp = [TAB]" using n1 by (simp only: u if_True if_False)
      moreover have "?a < ?c" "?b < ?c" using True by simp_all
      moreover have "?e \<le> ?c" using n1 True by linarith
      ultimately show ?thesis by simp
    next
      case n2: False
      show ?thesis
      proof (cases "?a < ?b")
        case True
        then have "detectFrom smp = [SEMICOLON]" using n1 n2 by (simp only: u if_True if_False)
        moreover have "?c \<le> ?b" using n2 True by linarith
        moreover have "?e \<le> ?b" using n1 n2 True by linarith
        ultimately show ?thesis using True by simp
      next
        case n3: False
        then have "detectFrom smp = [COMMA]" using n1 n2 by (simp only: u if_True if_False)
        moreover have "?b \<le> ?a" using n3 by simp
        moreover have "?c \<le> ?a" using n2 n3 by linarith
        moreover have "?e \<le> ?a" using n1 n2 n3 by linarith
        ultimately show ?thesis by simp
      qed
    qed
  qed
qed

text \<open>
  Claim C4. For a text with a non-empty sample: a candidate whose average column count
  is strictly greater than that of every other candidate is returned; the candidate
  returned has the greatest average, strictly greater than that of every candidate
  declared before it (ties go to the earliest); and when no candidate's average exceeds
  the baseline 1, comma is returned.
\<close>

theorem detect_highest_average:
  assumes ne: "sample s \<noteq> []"
  shows "(\<forall>c\<in>set candidates.
            (\<forall>c'\<in>set candidates. c' \<noteq> c \<longrightarrow> meanColumns (sample s) c' < meanColumns (sample s) c) \<longrightarrow>
            detectDelimiter s = [c]) \<and>
         (\<exists>pre b post. candidates = pre @ b # post \<and> detectDelimiter s = [b] \<and>
            (\<forall>c\<in>set pre. meanColumns (sample s) c < meanColumns (sample s) b) \<and>
            (\<forall>c\<in>set post. meanColumns (sample s) c \<le> meanColumns (sample s) b)) \<and>
         ((\<forall>c\<in>set candidates. meanColumns (sample s) c \<le> 1) \<longrightarrow> detectDelimiter s = [COMMA])"
proof -
  let ?m = "meanColumns (sample s)"
  have g: "1 \<le> ?m COMMA" "1 \<le> ?m SEMICOLON" "1 \<le> ?m TAB" "1 \<le> ?m PIPE"
    using ne by (simp_all add: meanColumns_ge_1)
  consider (pipe) "detectDelimiter s = [PIPE]" "?m COMMA < ?m PIPE" "?m SEMICOLON < ?m PIPE" "?m TAB < ?m PIPE"
    | (tab) "detectDelimiter s = [TAB]" "?m COMMA < ?m TAB" "?m SEMICOLON < ?m TAB" "?m PIPE \<le> ?m TAB"
    | (semi) "detectDelimiter s = [SEMICOLON]" "?m COMMA < ?m SEMICOLON" "?m TAB \<le> ?m SEMICOLON" "?m PIPE \<le> ?m SEMICOLON"
    | (comma) "detectDelimiter s = [COMMA]" "?m SEMICOLON \<le> ?m COMMA" "?m TAB \<le> ?m COMMA" "?m PIPE \<le> ?m COMMA"
    using detectFrom_cases [OF ne] unfolding detectDelimiter_def by blast
  note cases = this
  have b: "\<exists>pre b post. candidates = pre @ b # post \<and> detectDelimiter s = [b] \<and>
            (\<forall>c\<in>set pre. ?m c < ?m b) \<and> (\<forall>c\<in>set post. ?m c \<le> ?m b)"
  proof (cases rule: cases)
    case pipe
    then show ?thesis
      by (intro exI [of _ "[COMMA, SEMICOLON, TAB]"] exI [of _ PIPE] exI [of _ "[]"])
        (simp add: candidates_def)
  next
    case tab
    then show ?thesis
      by (intro exI [of _ "[COMMA, SEMICOLON]"] exI [of _ TAB] exI [of _ "[PIPE]"])
        (simp add: candidates_def)
  next
    case semi
    then show ?thesis
      by (intro exI [of _ "[COMMA]"] exI [of _ SEMICOLON] exI [of _ "[TAB, PIPE]"])
        (simp add: candidates_def)
  next
    case comma
    then show ?thesis
      by (intro exI [of _ "[]"] exI [of _ COMMA] exI [of _ "[SEMICOLON, TAB, PIPE]"])
        (simp add: candidates_def)
  qed
  have a: "\<forall>c\<in>set candidates.
            (\<forall>c'\<in>set candidates. c' \<noteq> c \<longrightarrow> ?m c' < ?m c) \<longrightarrow> detectDelimiter s = [c]"
    by (cases rule: cases) (auto simp add: candidates_def)
  have c: "(\<forall>c\<in>set candidates. ?m c \<le> 1) \<longrightarrow> detectDelimiter s = [COMMA]"
    using g by (cases rule: cases) (auto simp add: candidates_def)
  from a b c show ?thesis by blast
qed

text \<open>On \<open>a;b;c\<close>, line feed, \<open>1;2,3\<close> the averages are 3/2 for comma, 5/2 for
  semicolon and 1 for tab and pipe: semicolon. On \<open>abc\<close> every average is 1: comma.\<close>

theorem detect_highest_average_witness:
  "sample (ascii ''a;b;c'' @ [LF] @ ascii ''1;2,3'') \<noteq> [] \<and>
   meanColumns (sample (ascii ''a;b;c'' @ [LF] @ ascii ''1;2,3'')) COMMA = 3 / 2 \<and>
   meanColumns (sample (ascii ''a;b;c'' @ [LF] @ ascii ''1;2,3'')) SEMICOLON = 5 / 2 \<and>
   meanColumns (sample (ascii ''a;b;c'' @ [LF] @ ascii ''1;2,3'')) TAB = 1 \<and>
   meanColumns (sample (ascii ''a;b;c'' @ [LF] @ ascii ''1;2,3'')) PIPE = 1 \<and>
   detectDelimiter (ascii ''a;b;c'' @ [LF] @ ascii ''1;2,3'') = [SEMICOLON] \<and>
   sample (ascii ''abc'') \<noteq> [] \<and>
   detectDelimiter (ascii ''abc'') = [COMMA]"
proof -
  let ?S = "ascii ''a;b;c'' @ [LF] @ ascii ''1;2,3''"
  have smp: "sample ?S = [ascii ''a;b;c'', ascii ''1;2,3'']" by code_simp
  then have ne: "sample ?S \<noteq> []" by simp
  have m: "meanColumns (sample ?S) COMMA = 3 / 2" "meanColumns (sample ?S) SEMICOLON = 5 / 2"
    "meanColumns (sample ?S) TAB = 1" "meanColumns (sample ?S) PIPE = 1"
    unfolding smp by (simp_all add: meanColumns_def columnCounts_def ascii_def)
  have "\<forall>c\<in>set candidates.
      (\<forall>c'\<in>set candidates. c' \<noteq> c \<longrightarrow> meanColumns (sample ?S) c' < meanColumns (sample ?S) c) \<longrightarrow>
      detectDelimiter ?S = [c]"
    using detect_highest_average [OF ne] by blast
  then have d: "detectDelimiter ?S = [SEMICOLON]"
    using m by (simp add: candidates_def)
  have smp2: "sample (ascii ''abc'') = [ascii ''abc'']" by code_simp
  then have ne2: "sample (ascii ''abc'') \<noteq> []" by simp
  have m2: "\<forall>c\<in>set candidates. meanColumns (sample (ascii ''abc'')) c \<le> 1"
    unfolding smp2 by (simp add: candidates_def meanColumns_def columnCounts_def ascii_def)
  have "(\<forall>c\<in>set candidates. meanColumns (sample (ascii ''abc'')) c \<le> 1) \<longrightarrow>
      detectDelimiter (ascii ''abc'') = [COMMA]"
    using detect_highest_average [OF ne2] by blast
  then have d2: "detectDelimiter (ascii ''abc'') = [COMMA]" using m2 by blast
  from ne m d ne2 d2 show ?thesis by simp
qed

section \<open>Quoted fields\<close>

text \<open>
  Claim C5 as stated: for every string, the quoted encoding is tokenized to a single
  field and projected to the string itself. The quoted empty string yields no row at
  all, and the field of a space and the letter \<open>a\<close>, as the data row under the header
  \<open>h\<close>, is projected with default options to the letter \<open>a\<close> alone, the cell being
  trimmed.
\<close>

theorem quoted_field_counterexample:
  "parseRows (quoteField []) [COMMA] None True = [] \<and>
   parseCSV asciiToLowerCase (\<lambda>s. None) (ascii ''h'' @ [LF] @ quoteField (ascii '' a''))
       (defaultOptions :: (unit, unit) CsvOptions) =
     [[(ascii ''h'', JString (ascii ''a''))]]"
  by code_simp

lemma scan_quoted_body:
  "inQuotes st \<Longrightarrow>
   scanRows d cm sk st (escapeQuotes s @ [DQUOTE]) = st\<lparr>field := field st @ s, inQuotes := False\<rparr>"
proof (induction s arbitrary: st)
  case Nil
  then show ?case by (simp add: escapeQuotes_def scan_toggle)
next
  case (Cons c s)
  show ?case
  proof (cases "c = DQUOTE")
    case True
    have "scanRows d cm sk st (DQUOTE # DQUOTE # escapeQuotes s @ [DQUOTE]) =
        scanRows d cm sk (st\<lparr>field := field st @ [DQUOTE]\<rparr>) (drop 1 (DQUOTE # escapeQuotes s @ [DQUOTE]))"
      using Cons.prems by (intro scan_escaped) simp_all
    then show ?thesis
      using True Cons.IH [of "st\<lparr>field := field st @ [DQUOTE]\<rparr>"] Cons.prems
      by (simp add: escapeQuotes_def)
  next
    case False
    have "scanRows d cm sk st (c # escapeQuotes s @ [DQUOTE]) =
        scanRows d cm sk (st\<lparr>field := field st @ [c]\<rparr>) (escapeQuotes s @ [DQUOTE])"
      using Cons.prems False by (intro scan_other) simp_all
    then show ?thesis
      using False Cons.IH [of "st\<lparr>field := field st @ [c]\<rparr>"] Cons.prems
      by (simp add: escapeQuotes_def)
  qed
qed

lemma scan_quoteField:
  "\<not> inQuotes st \<Longrightarrow> \<not> commentStart cm st DQUOTE \<Longrightarrow>
   scanRows d cm sk st (quoteField s) = st\<lparr>field := field st @ s\<rparr>"
proof -
  assume q: "\<not> inQuotes st" and c: "\<not> commentStart cm st DQUOTE"
  have "scanRows d cm sk st (DQUOTE # escapeQuotes s @ [DQUOTE]) =
      scanRows d cm sk (st\<lparr>inQuotes := \<not> inQuotes st\<rparr>) (escapeQuotes s @ [DQUOTE])"
    using q c by (intro scan_toggle) simp_all
  then show ?thesis
    using q scan_quoted_body [of "st\<lparr>inQuotes := True\<rparr>" d cm sk s]
    by (simp add: quoteField_def)
qed

lemma parseRows_quoteField:
  "trim s \<noteq> [] \<Longrightarrow> parseRows (quoteField s) d None sk = [[s]]"
proof -
  assume t: "trim s \<noteq> []"
  then have s: "s \<noteq> []" by (auto simp: trim_def)
  have "scanRows d None sk initial (quoteField s) = initial\<lparr>field := field initial @ s\<rparr>"
    by (rule scan_quoteField) (simp_all add: initial_def)
  then show ?thesis
    using t s by (simp add: parseRows_def finish_def pushField_def pushRow_def initial_def)
qed


lemma detectDelimiter_candidate:
  "detectDelimiter s = [COMMA] \<or> detectDelimiter s = [SEMICOLON] \<or>
   detectDelimiter s = [TAB] \<or> detectDelimiter s = [PIPE]"
proof (cases "sample s = []")
  case True
  then show ?thesis by (simp add: detectDelimiter_def detectFrom_empty)
next
  case False
  then show ?thesis using detectFrom_cases [OF False] by (auto simp: detectDelimiter_def)
qed

lemma trim_h [simp]: "trim [0x68] = [0x68]"
  by (simp add: trim_def isWhiteSpace_def)

lemma parseRows_header_quoteField:
  assumes t: "trim s \<noteq> []"
    and d: "d = [COMMA] \<or> d = [SEMICOLON] \<or> d = [TAB] \<or> d = [PIPE]"
  shows "parseRows (0x68 # LF # quoteField s) d None sk = [[[0x68]], [s]]"
proof -
  have s: "s \<noteq> []" using t by (auto simp: trim_def)
  have nd: "[0x68] \<noteq> d" using d by auto
  let ?st1 = "initial\<lparr>field := field initial @ [0x68]\<rparr>"
  let ?st2 = "pushRow sk (pushField ?st1)"
  have 1: "scanRows d None sk initial (0x68 # LF # quoteField s) =
      scanRows d None sk ?st1 (LF # quoteField s)"
    using nd by (intro scan_other) simp_all
  have 2: "scanRows d None sk ?st1 (LF # quoteField s) =
      scanRows d None sk ?st2 (if LF = CR \<and> take 1 (quoteField s) = [LF] then drop 1 (quoteField s) else quoteField s)"
    using d by (intro scan_newline) (auto simp: initial_def)
  have st2: "?st2 = \<lparr>field = [], row = [], inQuotes = False, lines = [[[0x68]]]\<rparr>"
    by (simp add: pushRow_def pushField_def initial_def)
  have 3: "scanRows d None sk ?st2 (quoteField s) = ?st2\<lparr>field := field ?st2 @ s\<rparr>"
    by (rule scan_quoteField) (simp_all add: st2)
  have "scanRows d None sk initial (0x68 # LF # quoteField s) =
      \<lparr>field = s, row = [], inQuotes = False, lines = [[[0x68]]]\<rparr>"
    using 1 2 3 by (simp add: st2)
  then show ?thesis
    using t s by (simp add: parseRows_def finish_def pushField_def pushRow_def)
qed

lemma rowsOf_header_quoteField:
  assumes t: "trim s \<noteq> []" and o: "delimiter opts = None" "comment opts = None"
  shows "rowsOf opts (ascii ''h'' @ [LF] @ quoteField s) = [[ascii ''h''], [s]]"
proof -
  have a: "ascii ''h'' = [0x68]" by (simp add: ascii_def)
  have b: "stripBOM (0x68 # LF # quoteField s) = 0x68 # LF # quoteField s"
    by (simp add: stripBOM_def)
  show ?thesis
    using parseRows_header_quoteField [OF t detectDelimiter_candidate] o
    by (simp add: rowsOf_def a b delimiterOf_def)
qed

text \<open>
  Claim C5, amended to the strings that are not empty after trimming. With no comment
  prefix, \<open>skipEmptyLines\<close> on and any delimiter, the quoted encoding of such a string
  is tokenized to exactly one row of exactly one field, the string itself, whatever
  delimiters, line endings and quotes it contains. As the data row under the header
  line \<open>h\<close>, \<open>parseCSV\<close> with default options (the delimiter detected, cells trimmed)
  projects it to the trimmed string, and to the string itself when \<open>trimCells\<close> is off.
\<close>

theorem quoted_field_roundtrip:
  assumes t: "trim s \<noteq> []"
  shows "parseRows (quoteField s) d None True = [[s]] \<and>
         parseCSV toLowerCase Number (ascii ''h'' @ [LF] @ quoteField s) defaultOptions =
           [[(toLowerCase (ascii ''h''), JString (trim s))]] \<and>
         parseCSV toLowerCase Number (ascii ''h'' @ [LF] @ quoteField s)
             (defaultOptions\<lparr>trimCells := Some False\<rparr>) =
           [[(toLowerCase (ascii ''h''), JString s)]]"
proof -
  have a: "ascii ''h'' = [0x68]" by (simp add: ascii_def)
  have r1: "rowsOf defaultOptions (ascii ''h'' @ [LF] @ quoteField s) = [[ascii ''h''], [s]]"
    by (rule rowsOf_header_quoteField [OF t]) (simp_all add: defaultOptions_def)
  have r2: "rowsOf (defaultOptions\<lparr>trimCells := Some False\<rparr>) (ascii ''h'' @ [LF] @ quoteField s) =
      [[ascii ''h''], [s]]"
    by (rule rowsOf_header_quoteField [OF t]) (simp_all add: defaultOptions_def)
  have p1: "parseCSV toLowerCase Number (ascii ''h'' @ [LF] @ quoteField s) defaultOptions =
           [[(toLowerCase (ascii ''h''), JString (trim s))]]"
    unfolding parseCSV_def r1
    by (simp add: a defaultOptions_def orDefault_def defvalOf_def resolveHeaders_def
        normalizeHeaders_def widestRow_def widenHeaders_def projectRow_def cellValue_def)
  have p2: "parseCSV toLowerCase Number (ascii ''h'' @ [LF] @ quoteField s)
             (defaultOptions\<lparr>trimCells := Some False\<rparr>) =
           [[(toLowerCase (ascii ''h''), JString s)]]"
    unfolding parseCSV_def r2
    by (simp add: a defaultOptions_def orDefault_def defvalOf_def resolveHeaders_def
        normalizeHeaders_def widestRow_def widenHeaders_def projectRow_def cellValue_def)
  from parseRows_quoteField [OF t] p1 p2 show ?thesis by simp
qed

text \<open>The string \<open>a,"\<close>, line feed, \<open>b\<close> holds a delimiter, a quote and a line feed
  and has no white space at its ends: it comes back as it is.\<close>

theorem quoted_field_roundtrip_witness:
  "trim (ascii ''a,'' @ [DQUOTE, LF] @ ascii ''b'') \<noteq> [] \<and>
   quoteField (ascii ''a,'' @ [DQUOTE, LF] @ ascii ''b'') =
     [DQUOTE] @ ascii ''a,'' @ [DQUOTE, DQUOTE, LF] @ ascii ''b'' @ [DQUOTE] \<and>
   parseRows (quoteField (ascii ''a,'' @ [DQUOTE, LF] @ ascii ''b'')) [COMMA] None True =
     [[ascii ''a,'' @ [DQUOTE, LF] @ ascii ''b'']] \<and>
   parseCSV asciiToLowerCase (\<lambda>s. None) (ascii ''h'' @ [LF] @ quoteField (ascii ''a,'' @ [DQUOTE, LF] @ ascii ''b''))
       (defaultOptions :: (unit, unit) CsvOptions) =
     [[(ascii ''h'', JString (ascii ''a,'' @ [DQUOTE, LF] @ ascii ''b''))]]"
proof -
  let ?s = "ascii ''a,'' @ [DQUOTE, LF] @ ascii ''b''"
  have tr: "trim ?s = ?s" by code_simp
  have ne: "trim ?s \<noteq> []" unfolding tr by (simp add: ascii_def)
  have q: "quoteField ?s = [DQUOTE] @ ascii ''a,'' @ [DQUOTE, DQUOTE, LF] @ ascii ''b'' @ [DQUOTE]"
    by code_simp
  have l: "asciiToLowerCase (ascii ''h'') = ascii ''h''" by code_simp
  have main: "parseRows (quoteField ?s) [COMMA] None True = [[?s]] \<and>
      parseCSV asciiToLowerCase (\<lambda>s. None) (ascii ''h'' @ [LF] @ quoteField ?s)
          (defaultOptions :: (unit, unit) CsvOptions) =
        [[(asciiToLowerCase (ascii ''h''), JString (trim ?s))]] \<and>
      parseCSV asciiToLowerCase (\<lambda>s. None) (ascii ''h'' @ [LF] @ quoteField ?s)
          ((defaultOptions :: (unit, unit) CsvOptions)\<lparr>trimCells := Some False\<rparr>) =
        [[(asciiToLowerCase (ascii ''h''), JString ?s)]]"
    by (rule quoted_field_roundtrip [OF ne])
  have a: "parseRows (quoteField ?s) [COMMA] None True = [[?s]]"
    using main by (rule conjunct1)
  have b: "parseCSV asciiToLowerCase (\<lambda>s. None) (ascii ''h'' @ [LF] @ quoteField ?s)
          (defaultOptions :: (unit, unit) CsvOptions) = [[(ascii ''h'', JString ?s)]]"
    using main [unfolded tr l] by (rule conjunct1 [OF conjunct2])
  show ?thesis
    by (intro conjI ne q a b)
qed

section \<open>Headers and records\<close>

lemma parseCSV_stages:
  "parseCSV toLowerCase Number inp opts =
     (if rowsOf opts inp = [] then []
      else projectRows Number opts
             (fst (resolveHeaders toLowerCase (orDefault (HFlag True) (headers opts))
                     (orDefault False (preserveHeaderCase opts)) (rowsOf opts inp)))
             (snd (resolveHeaders toLowerCase (orDefault (HFlag True) (headers opts))
                     (orDefault False (preserveHeaderCase opts)) (rowsOf opts inp)))
             (rowsOf opts inp))"
  by (simp add: parseCSV_def projectRows_def Let_def split: prod.splits)



lemma BOM_space [simp]: "isWhiteSpace BOM"
  by (simp add: isWhiteSpace_def)


lemma projectRow_keys:
  assumes "w \<le> length names"
  shows "fst ` set (fold (\<lambda>c csvRow. AList.update (names ! c) (f c) csvRow) [0..<w] []) = set (take w names) \<and>
         distinct (map fst (fold (\<lambda>c csvRow. AList.update (names ! c) (f c) csvRow) [0..<w] []))"
  using assms
proof (induction w)
  case 0
  then show ?case by simp
next
  case (Suc w)
  then have l: "w \<le> length names" "w < length names" by simp_all
  show ?case
    using Suc.IH [OF l(1)] l
    by (simp add: dom_update distinct_update take_Suc_conv_app_nth)
qed

lemma widestRow_fold:
  "w0 \<le> fold (\<lambda>r w. if length r > w then length r else w) rows w0 \<and>
   (\<forall>r\<in>set rows. length r \<le> fold (\<lambda>r w. if length r > w then length r else w) rows w0) \<and>
   (fold (\<lambda>r w. if length r > w then length r else w) rows w0 = w0 \<or>
    (\<exists>r\<in>set rows. length r = fold (\<lambda>r w. if length r > w then length r else w) rows w0))"
proof (induction rows arbitrary: w0)
  case Nil
  then show ?case by simp
next
  case (Cons r rows)
  let ?f = "\<lambda>r w. if length r > w then length r else w"
  show ?case
    using Cons.IH [of "?f r w0"] by (auto split: if_splits)
qed

lemma widestRow_max:
  "(\<forall>r\<in>set rows. length r \<le> widestRow rows) \<and>
   (rows \<noteq> [] \<longrightarrow> (\<exists>r\<in>set rows. length r = widestRow rows))"
proof -
  note f = widestRow_fold [of 0 rows, folded widestRow_def]
  have "rows \<noteq> [] \<longrightarrow> (\<exists>r\<in>set rows. length r = widestRow rows)"
  proof
    assume ne: "rows \<noteq> []"
    show "\<exists>r\<in>set rows. length r = widestRow rows"
    proof (cases "widestRow rows = 0")
      case True
      then have "\<forall>r\<in>set rows. length r = 0" using f by auto
      then show ?thesis using ne True by (cases rows) auto
    next
      case False
      then show ?thesis using f by auto
    qed
  qed
  then show ?thesis using f by blast
qed

lemma length_widenHeaders:
  "length (widenHeaders hn (max (length hn) k)) = max (length hn) k"
  by (simp add: widenHeaders_def)







lemma projectRows_nth:
  "length (projectRows Number opts hn ds rows) = length rows - ds \<and>
   (\<forall>i<length rows - ds.
      projectRows Number opts hn ds rows ! i =
        projectRow Number (orDefault True (trimCells opts)) (orDefault False (inferTypes opts))
          (defvalOf opts) (widenHeaders hn (max (length hn) (widestRow rows)))
          (max (length hn) (widestRow rows)) (rows ! (ds + i)))"
  by (simp add: projectRows_def Let_def)



text \<open>The value of a cell the row does not have: \<open>defval\<close> with \<open>inferTypes\<close>
  off, \<open>undefined\<close> with \<open>inferTypes\<close> on.\<close>

lemma cellValue_missing: "cellValue Number trimC False dv None = dv"
  by (simp add: cellValue_def)

lemma cellValue_missing_inferTypes: "cellValue Number trimC True dv None = JUndefined"
  by (simp add: cellValue_def convertToJsTypes_def)

text \<open>
  Claim C1, at a failing input. With \<open>inferTypes\<close> on and \<open>defval\<close> the string
  \<open>-\<close>, the row \<open>x\<close> under the headers \<open>a,b\<close> leaves \<open>undefined\<close> under \<open>b\<close>; with
  \<open>inferTypes\<close> off the same cell holds \<open>defval\<close>.
\<close>

theorem inferTypes_missing_cell_undefined:
  "parseCSV asciiToLowerCase (\<lambda>s. None) (ascii ''a,b'' @ [LF] @ ascii ''x'')
      ((defaultOptions :: (unit, unit) CsvOptions)
         \<lparr>defval := Some (JString (ascii ''-'')), inferTypes := Some True\<rparr>) =
     [[(ascii ''a'', JString (ascii ''x'')), (ascii ''b'', JUndefined)]] \<and>
   parseCSV asciiToLowerCase (\<lambda>s. None) (ascii ''a,b'' @ [LF] @ ascii ''x'')
      ((defaultOptions :: (unit, unit) CsvOptions)
         \<lparr>defval := Some (JString (ascii ''-'')), inferTypes := Some False\<rparr>) =
     [[(ascii ''a'', JString (ascii ''x'')), (ascii ''b'', JString (ascii ''-''))]]"
  by code_simp

text \<open>
  Claim C2 as stated: every record has exactly \<open>max(headerCount, widestRowWidth)\<close>
  keys. With the header row \<open>a,a\<close> the header count and the widest row are both 2,
  and the record of the row \<open>1,2\<close> has the one key \<open>a\<close>.
\<close>

theorem duplicate_header_counterexample:
  "rowsOf (defaultOptions :: (unit, unit) CsvOptions) (ascii ''a,a'' @ [LF] @ ascii ''1,2'') =
     [[ascii ''a'', ascii ''a''], [ascii ''1'', ascii ''2'']] \<and>
   resolveHeaders asciiToLowerCase (HFlag True) False
       [[ascii ''a'', ascii ''a''], [ascii ''1'', ascii ''2'']] =
     ([ascii ''a'', ascii ''a''], 1) \<and>
   widestRow [[ascii ''a'', ascii ''a''], [ascii ''1'', ascii ''2'']] = 2 \<and>
   parseCSV asciiToLowerCase (\<lambda>s. None) (ascii ''a,a'' @ [LF] @ ascii ''1,2'')
       (defaultOptions :: (unit, unit) CsvOptions) =
     [[(ascii ''a'', JString (ascii ''2''))]]"
  by code_simp

lemma projectRow_lookup_tail:
  assumes "c < w" "w \<le> length names" "\<forall>c'. c \<le> c' \<and> c' < w \<longrightarrow> f c' = v"
  shows "map_of (fold (\<lambda>c csvRow. AList.update (names ! c) (f c) csvRow) [0..<w] []) (names ! c) = Some v"
  using assms
proof (induction w)
  case 0
  then show ?case by simp
next
  case (Suc w)
  show ?case
  proof (cases "names ! w = names ! c")
    case True
    then show ?thesis using Suc.prems by (simp add: update_conv')
  next
    case False
    then have "c < w" using Suc.prems(1) by (cases "c = w") auto
    then show ?thesis using Suc.IH Suc.prems False by (simp add: update_conv')
  qed
qed

text \<open>
  Claim C2, amended. The widened header sequence has \<open>max(headerCount, widestRowWidth)\<close>
  names, where the widest row width is the greatest length of a tokenized row. No header
  being named \<open>__proto__\<close>, every record has the names of that sequence as its keys, one
  key for each distinct name: exactly \<open>max(headerCount, widestRowWidth)\<close> keys when the
  names are pairwise distinct. With \<open>inferTypes\<close> off, the record holds the configured
  default value under the header name of every position at which its row has no cell.
  Nothing is said of the order in which the keys are enumerated.
\<close>

theorem record_width:
  assumes rows: "rowsOf opts inp = rows" "rows \<noteq> []"
    and res: "resolveHeaders toLowerCase (orDefault (HFlag True) (headers opts))
                (orDefault False (preserveHeaderCase opts)) rows = (hn, ds)"
    and names: "names = widenHeaders hn (max (length hn) (widestRow rows))"
    and proto: "ascii ''__proto__'' \<notin> set names"
    and i: "i < length rows - ds"
  shows "length names = max (length hn) (widestRow rows) \<and>
         (\<forall>r\<in>set rows. length r \<le> widestRow rows) \<and>
         (\<exists>r\<in>set rows. length r = widestRow rows) \<and>
         length (parseCSV toLowerCase Number inp opts) = length rows - ds \<and>
         fst ` set (parseCSV toLowerCase Number inp opts ! i) = set names \<and>
         length (parseCSV toLowerCase Number inp opts ! i) = card (set names) \<and>
         (distinct names \<longrightarrow>
            length (parseCSV toLowerCase Number inp opts ! i) = max (length hn) (widestRow rows)) \<and>
         (orDefault False (inferTypes opts) = False \<longrightarrow>
            (\<forall>c. length (rows ! (ds + i)) \<le> c \<and> c < max (length hn) (widestRow rows) \<longrightarrow>
               map_of (parseCSV toLowerCase Number inp opts ! i) (names ! c) = Some (defvalOf opts)))"
proof -
  let ?w = "max (length hn) (widestRow rows)"
  let ?r = "rows ! (ds + i)"
  let ?f = "\<lambda>c. cellValue Number (orDefault True (trimCells opts)) (orDefault False (inferTypes opts))
      (defvalOf opts) (if c < length ?r then Some (?r ! c) else None)"
  let ?rec = "parseCSV toLowerCase Number inp opts ! i"
  have len: "length names = ?w"
    unfolding names by (rule length_widenHeaders)
  have tk: "take ?w names = names" using len by simp
  have p: "parseCSV toLowerCase Number inp opts = projectRows Number opts hn ds rows"
    using rows(2) by (simp add: parseCSV_stages rows(1) res)
  have n: "length (parseCSV toLowerCase Number inp opts) = length rows - ds"
    unfolding p using projectRows_nth by blast
  have "?rec = projectRow Number (orDefault True (trimCells opts)) (orDefault False (inferTypes opts))
          (defvalOf opts) names ?w ?r"
    unfolding p names using projectRows_nth [of Number opts hn ds rows] i by blast
  then have rec: "?rec = fold (\<lambda>c csvRow. AList.update (names ! c) (?f c) csvRow) [0..<?w] []"
    by (simp only: projectRow_def)
  have keys: "fst ` set ?rec = set names" and dk: "distinct (map fst ?rec)"
    using projectRow_keys [of ?w names ?f] len by (simp_all only: rec tk)
  have "length ?rec = length (map fst ?rec)" by simp
  also have "\<dots> = card (set (map fst ?rec))" using dk by (simp only: distinct_card)
  also have "\<dots> = card (set names)" using keys by simp
  finally have cnt: "length ?rec = card (set names)" .
  have dist: "distinct names \<longrightarrow> length ?rec = ?w"
    using cnt len by (simp add: distinct_card)
  have miss: "orDefault False (inferTypes opts) = False \<longrightarrow>
      (\<forall>c. length ?r \<le> c \<and> c < ?w \<longrightarrow> map_of ?rec (names ! c) = Some (defvalOf opts))"
  proof (intro impI allI)
    fix c
    assume inf: "orDefault False (inferTypes opts) = False" and c: "length ?r \<le> c \<and> c < ?w"
    have "\<forall>c'. c \<le> c' \<and> c' < ?w \<longrightarrow> ?f c' = defvalOf opts"
      using c inf by (simp add: cellValue_missing)
    then show "map_of ?rec (names ! c) = Some (defvalOf opts)"
      unfolding rec using c len by (intro projectRow_lookup_tail) simp_all
  qed
  from len widestRow_max [of rows] rows(2) n keys cnt dist miss show ?thesis by blast
qed

text \<open>The row \<open>1,2\<close> under the headers \<open>a,b,c\<close> with \<open>defval\<close> the string \<open>-\<close>:
  three keys, the default under \<open>c\<close>.\<close>

theorem record_width_witness:
  "length (parseCSV asciiToLowerCase (\<lambda>s. None) (ascii ''a,b,c'' @ [LF] @ ascii ''1,2'' @ [LF] @ ascii ''3,4,5'')
      ((defaultOptions :: (unit, unit) CsvOptions)\<lparr>defval := Some (JString (ascii ''-''))\<rparr>) ! 0) = 3 \<and>
   map_of (parseCSV asciiToLowerCase (\<lambda>s. None) (ascii ''a,b,c'' @ [LF] @ ascii ''1,2'' @ [LF] @ ascii ''3,4,5'')
      ((defaultOptions :: (unit, unit) CsvOptions)\<lparr>defval := Some (JString (ascii ''-''))\<rparr>) ! 0) (ascii ''c'') =
     Some (JString (ascii ''-''))"
proof -
  let ?T = "ascii ''a,b,c'' @ [LF] @ ascii ''1,2'' @ [LF] @ ascii ''3,4,5''"
  let ?o = "(defaultOptions :: (unit, unit) CsvOptions)\<lparr>defval := Some (JString (ascii ''-''))\<rparr>"
  let ?R = "[[ascii ''a'', ascii ''b'', ascii ''c''], [ascii ''1'', ascii ''2''],
             [ascii ''3'', ascii ''4'', ascii ''5'']]"
  let ?hn = "[ascii ''a'', ascii ''b'', ascii ''c'']"
  have r: "rowsOf ?o ?T = ?R" by code_simp
  have ne: "?R \<noteq> []" by simp
  have res: "resolveHeaders asciiToLowerCase (orDefault (HFlag True) (headers ?o))
                (orDefault False (preserveHeaderCase ?o)) ?R = (?hn, 1)"
    by code_simp
  have nm: "?hn = widenHeaders ?hn (max (length ?hn) (widestRow ?R))" by code_simp
  have pr: "ascii ''__proto__'' \<notin> set ?hn" by (simp add: ascii_def)
  have i: "0 < length ?R - 1" by simp
  have w: "max (length ?hn) (widestRow ?R) = 3" by code_simp
  have d: "distinct ?hn" by (simp add: ascii_def)
  have inf: "orDefault False (inferTypes ?o) = False" by (simp add: defaultOptions_def orDefault_def)
  have dv: "defvalOf ?o = JString (ascii ''-'')" by (simp add: defvalOf_def)
  have c: "length (?R ! (1 + 0)) \<le> 2 \<and> 2 < max (length ?hn) (widestRow ?R)"
    unfolding w by simp
  note t = record_width [OF r ne res nm pr i, of "\<lambda>s. None"]
  have a: "length (parseCSV asciiToLowerCase (\<lambda>s. None) ?T ?o ! 0) = 3"
    using t d w by simp
  have "map_of (parseCSV asciiToLowerCase (\<lambda>s. None) ?T ?o ! 0) (?hn ! 2) = Some (defvalOf ?o)"
    using t inf c by blast
  then have b: "map_of (parseCSV asciiToLowerCase (\<lambda>s. None) ?T ?o ! 0) (ascii ''c'') =
      Some (JString (ascii ''-''))"
    by (simp add: dv)
  from a b show ?thesis by (intro conjI)
qed

section \<open>Line endings\<close>












lemma crlf_Nil [simp]: "crlf [] = []"
  by (simp add: crlf_def)

















end
